theory Spec2Isabelle
  imports Main "HOL-Library.Sublist"
begin

section \<open>The taxonomy validator of \<^verbatim>\<open>validate_taxonomy.py\<close>\<close>

text \<open>
  A Python \<^verbatim>\<open>str\<close> is modelled as \<^typ>\<open>string\<close>, read as the UTF-8 bytes of the text:
  every character the script searches for, splits on or accepts in a pattern is ASCII, and
  an ASCII byte never occurs inside a multi-byte sequence.
\<close>

subsection \<open>Parsed documents\<close>

text \<open>
  What \<^verbatim>\<open>json.loads\<close> returns: \<^verbatim>\<open>None\<close>, a \<^verbatim>\<open>bool\<close>, a number, a \<^verbatim>\<open>str\<close>, a \<^verbatim>\<open>list\<close> or
  a \<^verbatim>\<open>dict\<close>. A \<^verbatim>\<open>dict\<close> is the list of its items in insertion order; its keys are
  distinct, which nothing below relies on. The script never looks at the value of a number,
  only at its type.
\<close>

datatype json =
    JNull
  | JBool bool
  | JNum int
  | JStr string
  | JArr "json list"
  | JObj "(string \<times> json) list"

text \<open>The exceptions the script can raise on a parsed document and does not catch.\<close>

datatype exn = AttributeError | TypeError

text \<open>\<^verbatim>\<open>class ValidationError\<close>; its field \<^verbatim>\<open>identifier\<close> is \<open>ident\<close> here.\<close>

record ValidationError =
  message :: string
  ident :: string
  line :: nat

subsection \<open>String primitives\<close>

text \<open>\<^verbatim>\<open>s.split(sep)\<close> for a one-character separator: never the empty list.\<close>

fun split_on :: "char \<Rightarrow> string \<Rightarrow> string list" where
  "split_on sep [] = [[]]"
| "split_on sep (c # cs) =
     (if c = sep then [] # split_on sep cs
      else (case split_on sep cs of
              [] \<Rightarrow> [[c]]
            | w # ws \<Rightarrow> (c # w) # ws))"

text \<open>\<^verbatim>\<open>needle in haystack\<close> on two \<^verbatim>\<open>str\<close>: substring search.\<close>

fun str_contains :: "string \<Rightarrow> string \<Rightarrow> bool" where
  "str_contains needle [] = (needle = [])"
| "str_contains needle (c # cs) = (prefix needle (c # cs) \<or> str_contains needle cs)"

subsection \<open>\<^verbatim>\<open>class NamingPattern\<close>\<close>

datatype NamingPattern = ALPHANUM | PASCAL | CAMEL

definition ascii_upper :: "char \<Rightarrow> bool" where
  "ascii_upper c = (c \<in> set ''ABCDEFGHIJKLMNOPQRSTUVWXYZ'')"

definition ascii_lower :: "char \<Rightarrow> bool" where
  "ascii_lower c = (c \<in> set ''abcdefghijklmnopqrstuvwxyz'')"

definition ascii_digit :: "char \<Rightarrow> bool" where
  "ascii_digit c = (c \<in> set ''0123456789'')"

text \<open>
  The three patterns are \<^verbatim>\<open>^(?:dfc-m:)?F[a-zA-Z0-9]*$\<close> and differ in the class \<^verbatim>\<open>F\<close> of the
  first character only: \<^verbatim>\<open>[a-zA-Z]\<close>, \<^verbatim>\<open>[A-Z]\<close>, \<^verbatim>\<open>[a-z]\<close>.
\<close>

fun pattern_first :: "NamingPattern \<Rightarrow> char \<Rightarrow> bool" where
  "pattern_first ALPHANUM c = (ascii_lower c \<or> ascii_upper c)"
| "pattern_first PASCAL c = ascii_upper c"
| "pattern_first CAMEL c = ascii_lower c"

fun pattern_message :: "NamingPattern \<Rightarrow> string" where
  "pattern_message ALPHANUM = ''Must be alphanumeric starting with a letter''"
| "pattern_message PASCAL = ''Concepts must use PascalCase''"
| "pattern_message CAMEL = ''Properties must use camelCase''"

text \<open>
  \<^verbatim>\<open>[a-zA-Z0-9]*$\<close> on the rest of the string. Without \<^verbatim>\<open>re.MULTILINE\<close>, \<^verbatim>\<open>$\<close> matches at the
  end of the string and also just before a newline that is the last character.
\<close>

fun alnum_to_end :: "string \<Rightarrow> bool" where
  "alnum_to_end [] = True"
| "alnum_to_end (c # cs) =
     (((ascii_lower c \<or> ascii_upper c \<or> ascii_digit c) \<and> alnum_to_end cs)
      \<or> (c = CHR 0x0A \<and> cs = []))"

definition match_body :: "NamingPattern \<Rightarrow> string \<Rightarrow> bool" where
  "match_body p s = (case s of [] \<Rightarrow> False | c # cs \<Rightarrow> pattern_first p c \<and> alnum_to_end cs)"

text \<open>
  \<^verbatim>\<open>re.match(p.pattern, s)\<close> as a truth value: the optional group is tried taken, then
  skipped.
\<close>

definition re_match :: "NamingPattern \<Rightarrow> string \<Rightarrow> bool" where
  "re_match p s =
     ((prefix ''dfc-m:'' s \<and> match_body p (drop 6 s)) \<or> match_body p s)"

subsection \<open>\<^verbatim>\<open>class JSONLDParser\<close>\<close>

text \<open>The five characters \<^verbatim>\<open>"@id"\<close>, quotes included.\<close>

definition id_marker :: string where
  "id_marker = [CHR 0x22, CHR ''@'', CHR ''i'', CHR ''d'', CHR 0x22]"

text \<open>
  \<^verbatim>\<open>_map_ids_to_lines\<close>: the dict from line number to line, as its items in insertion order
  (ascending line numbers).
\<close>

definition map_ids_to_lines :: "string \<Rightarrow> (nat \<times> string) list" where
  "map_ids_to_lines content =
     filter (\<lambda>(line_num, l). str_contains id_marker l)
       (enumerate 1 (split_on CHR 0x0A content))"

text \<open>\<^verbatim>\<open>get_line_number\<close>: \<^verbatim>\<open>next\<close> over the items, default \<^verbatim>\<open>0\<close>.\<close>

definition get_line_number :: "string \<Rightarrow> string \<Rightarrow> nat" where
  "get_line_number content uri =
     (case filter (\<lambda>(num, l). str_contains uri l) (map_ids_to_lines content) of
        [] \<Rightarrow> 0
      | (num, l) # rest \<Rightarrow> num)"

text \<open>
  Iterating over a value, as the generator expression in \<^verbatim>\<open>get_node\<close> does over
  \<^verbatim>\<open>self.data['@graph']\<close>: a list gives its elements, a dict its keys, a \<^verbatim>\<open>str\<close> its
  characters; nothing else is iterable.
\<close>

fun py_iter :: "json \<Rightarrow> exn + json list" where
  "py_iter (JArr xs) = Inr xs"
| "py_iter (JObj kvs) = Inr (map (\<lambda>kv. JStr (fst kv)) kvs)"
| "py_iter (JStr s) = Inr (map (\<lambda>c. JStr [c]) s)"
| "py_iter _ = Inl TypeError"

text \<open>
  \<^verbatim>\<open>next((node for node in nodes if node.get('@id') == uri), {})\<close>: the generator is
  consumed up to the first match only; a node that is not a dict has no \<^verbatim>\<open>get\<close>. The node
  found is a dict, returned as its items.
\<close>

fun find_node :: "json list \<Rightarrow> string \<Rightarrow> exn + (string \<times> json) list" where
  "find_node [] uri = Inr []"
| "find_node (JObj kvs # rest) uri =
     (if map_of kvs ''@id'' = Some (JStr uri) then Inr kvs else find_node rest uri)"
| "find_node (other # rest) uri = Inl AttributeError"

text \<open>
  \<^verbatim>\<open>get_node\<close>. \<^verbatim>\<open>'@graph' not in self.data\<close> is a key test on a dict, an element test on a
  list, a substring test on a \<^verbatim>\<open>str\<close>, and raises on anything else;
  \<^verbatim>\<open>self.data['@graph']\<close> raises on a list and on a \<^verbatim>\<open>str\<close>.
\<close>

fun get_node :: "json \<Rightarrow> string \<Rightarrow> exn + (string \<times> json) list" where
  "get_node (JObj kvs) uri =
     (case map_of kvs ''@graph'' of
        None \<Rightarrow> Inr []
      | Some graph \<Rightarrow>
          (case py_iter graph of
             Inl e \<Rightarrow> Inl e
           | Inr nodes \<Rightarrow> find_node nodes uri))"
| "get_node (JArr xs) uri = (if JStr ''@graph'' \<notin> set xs then Inr [] else Inl TypeError)"
| "get_node (JStr s) uri = (if \<not> str_contains ''@graph'' s then Inr [] else Inl TypeError)"
| "get_node other uri = Inl TypeError"

subsection \<open>\<^verbatim>\<open>TaxonomyValidator._get_identifier\<close>\<close>

text \<open>
  \<^verbatim>\<open>uri.split('/')[-1]\<close> is the last element of a list that is never empty. A value that
  is not a \<^verbatim>\<open>str\<close> has no \<^verbatim>\<open>split\<close>.
\<close>

fun get_identifier :: "json \<Rightarrow> exn + string" where
  "get_identifier (JStr uri) =
     (if CHR ''#'' \<in> set (last (split_on CHR ''/'' uri))
      then Inr (last (split_on CHR ''#'' (last (split_on CHR ''/'' uri))))
      else Inr [])"
| "get_identifier _ = Inl AttributeError"

text \<open>
  The spec's LocalName, in its own words: the text after the last \<^verbatim>\<open>/\<close>, and, if that
  segment contains \<^verbatim>\<open>#\<close>, the text after the last \<^verbatim>\<open>#\<close>.
\<close>

definition after_last :: "char \<Rightarrow> string \<Rightarrow> string" where
  "after_last c s = rev (takeWhile (\<lambda>x. x \<noteq> c) (rev s))"

definition spec_local_name :: "string \<Rightarrow> string" where
  "spec_local_name uri =
     (if CHR ''#'' \<in> set (after_last CHR ''/'' uri)
      then after_last CHR ''#'' (after_last CHR ''/'' uri)
      else after_last CHR ''/'' uri)"

subsection \<open>\<^verbatim>\<open>TaxonomyValidator._validate_naming_patterns\<close>\<close>

text \<open>
  \<^verbatim>\<open>s in v\<close> for a \<^verbatim>\<open>str\<close> \<open>s\<close>: element test on a list, substring test on a \<^verbatim>\<open>str\<close>, key
  test on a dict; \<^verbatim>\<open>None\<close>, a \<^verbatim>\<open>bool\<close> or a number is not iterable.
\<close>

fun py_in :: "string \<Rightarrow> json \<Rightarrow> exn + bool" where
  "py_in s (JArr xs) = Inr (JStr s \<in> set xs)"
| "py_in s (JStr t) = Inr (str_contains s t)"
| "py_in s (JObj kvs) = Inr (s \<in> set (map fst kvs))"
| "py_in s other = Inl TypeError"

text \<open>\<^verbatim>\<open>node.get('@type', [])\<close> on the items of a dict.\<close>

definition get_type :: "(string \<times> json) list \<Rightarrow> json" where
  "get_type node = (case map_of node ''@type'' of None \<Rightarrow> JArr [] | Some t \<Rightarrow> t)"

text \<open>
  The method appends to \<^verbatim>\<open>self.errors\<close>: the list is passed in and returned. The raw text
  and the parsed document stand for \<^verbatim>\<open>self.parser\<close>.
\<close>

definition validate_naming_patterns ::
  "string \<Rightarrow> json \<Rightarrow> ValidationError list \<Rightarrow> string \<Rightarrow> string
     \<Rightarrow> exn + (bool \<times> ValidationError list)" where
  "validate_naming_patterns content data errors uri name =
     (case get_node data uri of
        Inl e \<Rightarrow> Inl e
      | Inr node \<Rightarrow>
          (if \<not> re_match ALPHANUM name
           then Inr (False, errors @
                  [\<lparr>message = pattern_message ALPHANUM, ident = name,
                    line = get_line_number content uri\<rparr>])
           else (case py_in ''skos:Concept'' (get_type node) of
                   Inl e \<Rightarrow> Inl e
                 | Inr concept \<Rightarrow>
                     (if concept \<and> \<not> re_match PASCAL name
                      then Inr (False, errors @
                             [\<lparr>message = pattern_message PASCAL, ident = name,
                               line = get_line_number content uri\<rparr>])
                      else Inr (True, errors)))))"

subsection \<open>\<^verbatim>\<open>TaxonomyValidator._extract_uris\<close>\<close>

fun is_container :: "json \<Rightarrow> bool" where
  "is_container (JObj kvs) = True"
| "is_container (JArr xs) = True"
| "is_container other = False"

text \<open>The values under \<^verbatim>\<open>@id\<close> are collected whatever their type.\<close>

fun extract_uris :: "json \<Rightarrow> json list" where
  "extract_uris (JObj kvs) =
     (case map_of kvs ''@id'' of None \<Rightarrow> [] | Some v \<Rightarrow> [v])
     @ concat (map (\<lambda>kv. if is_container (snd kv) then extract_uris (snd kv) else []) kvs)"
| "extract_uris (JArr xs) = concat (map extract_uris xs)"
| "extract_uris other = []"

subsection \<open>\<^verbatim>\<open>TaxonomyValidator._validate_uris\<close> and \<^verbatim>\<open>validate\<close>\<close>

text \<open>
  The \<^verbatim>\<open>for\<close> loop over the extracted identifiers, with its three variables
  \<^verbatim>\<open>seen_uris\<close>, \<^verbatim>\<open>is_valid\<close> and \<^verbatim>\<open>self.errors\<close>. An exception leaves the loop; on an
  identifier that is not a \<^verbatim>\<open>str\<close> the call of \<^verbatim>\<open>_get_identifier\<close> raises.
\<close>

fun validate_loop ::
  "string \<Rightarrow> json \<Rightarrow> json list \<Rightarrow> string set \<Rightarrow> bool \<Rightarrow> ValidationError list
     \<Rightarrow> exn + (bool \<times> ValidationError list)" where
  "validate_loop content data [] seen_uris is_valid errors = Inr (is_valid, errors)"
| "validate_loop content data (JStr uri # us) seen_uris is_valid errors =
     (case get_identifier (JStr uri) of
        Inl e \<Rightarrow> Inl e
      | Inr name \<Rightarrow>
          (if name = [] \<or> name \<in> seen_uris
           then validate_loop content data us seen_uris is_valid errors
           else (case validate_naming_patterns content data errors uri name of
                   Inl e \<Rightarrow> Inl e
                 | Inr (ok, errors') \<Rightarrow>
                     validate_loop content data us (insert name seen_uris)
                       (if \<not> ok then False else is_valid) errors')))"
| "validate_loop content data (other # us) seen_uris is_valid errors =
     (case get_identifier other of
        Inl e \<Rightarrow> Inl e
      | Inr name \<Rightarrow> Inl AttributeError)"

definition validate_uris :: "string \<Rightarrow> json \<Rightarrow> exn + (bool \<times> ValidationError list)" where
  "validate_uris content data = validate_loop content data (extract_uris data) {} True []"


subsection \<open>Documents on which nothing raises\<close>









text \<open>
  The lines the spec's GetLineNumber chooses among: line \<open>n\<close>, counted from 1, of the raw
  text contains the marker and contains the identifier.
\<close>

definition matching_line :: "string \<Rightarrow> string \<Rightarrow> nat \<Rightarrow> bool" where
  "matching_line content uri n =
     (1 \<le> n \<and> n \<le> length (split_on CHR 0x0A content)
      \<and> sublist id_marker (split_on CHR 0x0A content ! (n - 1))
      \<and> sublist uri (split_on CHR 0x0A content ! (n - 1)))"

section \<open>Properties\<close>

subsection \<open>Splitting\<close>

lemma split_on_not_Nil: "split_on sep s \<noteq> []"
  by (induction s) (auto split: list.splits)

lemma split_on_absent: "sep \<notin> set s \<Longrightarrow> split_on sep s = [s]"
  by (induction s) auto

lemma split_on_present: "sep \<in> set s \<Longrightarrow> \<exists>w v vs. split_on sep s = w # v # vs"
proof (induction s)
  case Nil
  then show ?case by simp
next
  case (Cons c cs)
  show ?case
  proof (cases "c = sep")
    case True
    obtain v vs where "split_on sep cs = v # vs"
      using split_on_not_Nil [of sep cs] by (cases "split_on sep cs") auto
    with True show ?thesis by simp
  next
    case False
    with Cons.prems have "sep \<in> set cs" by simp
    from Cons.IH [OF this] obtain w v vs where "split_on sep cs = w # v # vs" by blast
    with False show ?thesis by simp
  qed
qed

lemma after_last_Cons:
  "after_last sep (c # cs) =
     (if sep \<in> set cs then after_last sep cs else if c = sep then cs else c # cs)"
proof (cases "sep \<in> set cs")
  case True
  then have "sep \<in> set (rev cs)" by simp
  then have "takeWhile (\<lambda>x. x \<noteq> sep) (rev cs @ [c]) = takeWhile (\<lambda>x. x \<noteq> sep) (rev cs)"
    by (rule takeWhile_append1) simp
  with True show ?thesis by (simp add: after_last_def)
next
  case False
  then have all: "\<forall>x \<in> set (rev cs). x \<noteq> sep" by auto
  then have "takeWhile (\<lambda>x. x \<noteq> sep) (rev cs @ [c])
             = rev cs @ takeWhile (\<lambda>x. x \<noteq> sep) [c]"
    by (intro takeWhile_append2) simp
  with False show ?thesis by (simp add: after_last_def)
qed

lemma last_split_on: "last (split_on sep s) = after_last sep s"
proof (induction s)
  case Nil
  show ?case by (simp add: after_last_def)
next
  case (Cons c cs)
  show ?case
  proof (cases "sep \<in> set cs")
    case True
    from split_on_present [OF this] obtain w v vs where sp: "split_on sep cs = w # v # vs"
      by blast
    with True Cons.IH show ?thesis by (simp add: after_last_Cons)
  next
    case False
    then have "split_on sep cs = [cs]" by (rule split_on_absent)
    with False show ?thesis by (simp add: after_last_Cons)
  qed
qed

lemma str_contains_iff_sublist: "str_contains needle s \<longleftrightarrow> sublist needle s"
  by (induction s) (auto simp: sublist_Cons_right)

text \<open>
  C1, as the code has it: the LocalName of an identifier string is the text after the last
  \<^verbatim>\<open>#\<close> of its last \<^verbatim>\<open>/\<close>-segment when that segment contains \<^verbatim>\<open>#\<close>, and the empty string when
  it does not (the segment itself is never returned).
\<close>

theorem get_identifier_local_name:
  "get_identifier (JStr uri) =
     Inr (if CHR ''#'' \<in> set (after_last CHR ''/'' uri)
          then after_last CHR ''#'' (after_last CHR ''/'' uri)
          else [])"
  by (simp add: last_split_on)

text \<open>
  C1 as the spec states it fails: \<^verbatim>\<open>ex:Invalid_Name\<close> has no \<^verbatim>\<open>#\<close>, the spec's LocalName is
  the whole segment, the code's is empty.
\<close>

theorem get_identifier_not_spec_local_name:
  "get_identifier (JStr ''ex:Invalid_Name'') \<noteq> Inr (spec_local_name ''ex:Invalid_Name'')"
  by (simp add: spec_local_name_def after_last_def)

subsection \<open>The validation loop\<close>

lemma vnp_errors_append:
  "validate_naming_patterns c d errors uri name =
     (case validate_naming_patterns c d [] uri name of
        Inl e \<Rightarrow> Inl e
      | Inr (ok, es) \<Rightarrow> Inr (ok, errors @ es))"
  by (simp add: validate_naming_patterns_def split: sum.splits)

lemma vnp_shape:
  assumes "validate_naming_patterns c d [] uri name = Inr (ok, es)"
  shows "(ok \<and> es = []) \<or> (\<not> ok \<and> (\<exists>e. es = [e] \<and> ident e = name))"
  using assms by (auto simp: validate_naming_patterns_def split: sum.splits if_splits)

lemma get_identifier_Inr_str: "get_identifier u = Inr name \<Longrightarrow> \<exists>uri. u = JStr uri"
  by (cases u) auto

lemma get_identifier_str_Inr: "\<exists>name. get_identifier (JStr uri) = Inr name"
  by simp

lemma validate_loop_skip:
  "get_identifier (JStr uri) = Inr name \<Longrightarrow> name = [] \<or> name \<in> seen \<Longrightarrow>
   validate_loop c d (JStr uri # us) seen v errors = validate_loop c d us seen v errors"
  by (simp del: get_identifier.simps)

lemma validate_loop_step:
  assumes "get_identifier (JStr uri) = Inr name" "name \<noteq> []" "name \<notin> seen"
  shows "validate_loop c d (JStr uri # us) seen v errors =
     (case validate_naming_patterns c d [] uri name of
        Inl e \<Rightarrow> Inl e
      | Inr (ok1, es1) \<Rightarrow>
          validate_loop c d us (insert name seen) (if \<not> ok1 then False else v) (errors @ es1))"
proof -
  have "validate_loop c d (JStr uri # us) seen v errors =
     (case validate_naming_patterns c d errors uri name of
        Inl e \<Rightarrow> Inl e
      | Inr (ok1, errors1) \<Rightarrow>
          validate_loop c d us (insert name seen) (if \<not> ok1 then False else v) errors1)"
    using assms by (simp del: get_identifier.simps)
  also have "\<dots> = (case validate_naming_patterns c d [] uri name of
        Inl e \<Rightarrow> Inl e
      | Inr (ok1, es1) \<Rightarrow>
          validate_loop c d us (insert name seen) (if \<not> ok1 then False else v) (errors @ es1))"
    by (subst vnp_errors_append) (simp split: sum.splits prod.splits)
  finally show ?thesis .
qed

lemma validate_loop_result:
  assumes "validate_loop c d us seen v errors = Inr (ok, errs')"
  shows "\<exists>new. errs' = errors @ new \<and> ok = (v \<and> new = []) \<and>
          (\<forall>e \<in> set new. ident e \<noteq> [] \<and> ident e \<notin> seen) \<and>
          (\<forall>name. name \<noteq> [] \<longrightarrow> name \<notin> seen \<longrightarrow>
             (case find (\<lambda>u. get_identifier u = Inr name) us of
                None \<Rightarrow> filter (\<lambda>e. ident e = name) new = []
              | Some u \<Rightarrow> \<exists>uri ok1. u = JStr uri \<and>
                    validate_naming_patterns c d [] uri name
                      = Inr (ok1, filter (\<lambda>e. ident e = name) new)))"
  using assms
proof (induction us arbitrary: seen v errors)
  case Nil
  then show ?case by simp
next
  case (Cons u us)
  obtain uri where u: "u = JStr uri"
    using Cons.prems by (cases u) auto
  obtain name0 where gi: "get_identifier (JStr uri) = Inr name0"
    using get_identifier_str_Inr by blast
  show ?case
  proof (cases "name0 = [] \<or> name0 \<in> seen")
    case True
    from Cons.prems have "validate_loop c d us seen v errors = Inr (ok, errs')"
      unfolding u validate_loop_skip [OF gi True] .
    from Cons.IH [OF this] obtain new where
      new: "errs' = errors @ new" "ok = (v \<and> new = [])"
        "\<forall>e \<in> set new. ident e \<noteq> [] \<and> ident e \<notin> seen"
      and names: "\<And>name. name \<noteq> [] \<Longrightarrow> name \<notin> seen \<Longrightarrow>
             (case find (\<lambda>u. get_identifier u = Inr name) us of
                None \<Rightarrow> filter (\<lambda>e. ident e = name) new = []
              | Some u \<Rightarrow> \<exists>uri ok1. u = JStr uri \<and>
                    validate_naming_patterns c d [] uri name
                      = Inr (ok1, filter (\<lambda>e. ident e = name) new))"
      by blast
    have "case find (\<lambda>u. get_identifier u = Inr name) (u # us) of
                None \<Rightarrow> filter (\<lambda>e. ident e = name) new = []
              | Some u \<Rightarrow> \<exists>uri ok1. u = JStr uri \<and>
                    validate_naming_patterns c d [] uri name
                      = Inr (ok1, filter (\<lambda>e. ident e = name) new)"
      if "name \<noteq> []" "name \<notin> seen" for name
    proof -
      from that True have "name0 \<noteq> name" by auto
      with gi u have f2: "find (\<lambda>u. get_identifier u = Inr name) (u # us)
                      = find (\<lambda>u. get_identifier u = Inr name) us"
        by (simp del: get_identifier.simps)
      from names [OF that] show ?thesis unfolding f2 .
    qed
    with new show ?thesis by blast
  next
    case False
    from False have ne: "name0 \<noteq> []" and ns: "name0 \<notin> seen" by auto
    note step = validate_loop_step [OF gi ne ns, of c d us v errors]
    from Cons.prems have "(case validate_naming_patterns c d [] uri name0 of
        Inl e \<Rightarrow> Inl e
      | Inr (ok1, es1) \<Rightarrow>
          validate_loop c d us (insert name0 seen) (if \<not> ok1 then False else v)
            (errors @ es1)) = Inr (ok, errs')"
      unfolding u step .
    then obtain ok1 es1 where
      v1: "validate_naming_patterns c d [] uri name0 = Inr (ok1, es1)"
      and loop: "validate_loop c d us (insert name0 seen) (if \<not> ok1 then False else v)
                   (errors @ es1) = Inr (ok, errs')"
      by (auto split: sum.splits)
    from Cons.IH [OF loop] obtain new where
      new: "errs' = (errors @ es1) @ new" "ok = ((if \<not> ok1 then False else v) \<and> new = [])"
        "\<forall>e \<in> set new. ident e \<noteq> [] \<and> ident e \<notin> insert name0 seen"
      and names: "\<And>name. name \<noteq> [] \<Longrightarrow> name \<notin> insert name0 seen \<Longrightarrow>
             (case find (\<lambda>u. get_identifier u = Inr name) us of
                None \<Rightarrow> filter (\<lambda>e. ident e = name) new = []
              | Some u \<Rightarrow> \<exists>uri ok1. u = JStr uri \<and>
                    validate_naming_patterns c d [] uri name
                      = Inr (ok1, filter (\<lambda>e. ident e = name) new))"
      by blast
    from vnp_shape [OF v1] have shape:
      "(ok1 \<and> es1 = []) \<or> (\<not> ok1 \<and> (\<exists>e. es1 = [e] \<and> ident e = name0))" .
    have a: "errs' = errors @ (es1 @ new)" using new(1) by simp
    have b: "ok = (v \<and> es1 @ new = [])" using new(2) shape by auto
    have c: "\<forall>e \<in> set (es1 @ new). ident e \<noteq> [] \<and> ident e \<notin> seen"
      using new(3) shape False by auto
    have d: "case find (\<lambda>u. get_identifier u = Inr name) (u # us) of
                None \<Rightarrow> filter (\<lambda>e. ident e = name) (es1 @ new) = []
              | Some u \<Rightarrow> \<exists>uri ok1. u = JStr uri \<and>
                    validate_naming_patterns c d [] uri name
                      = Inr (ok1, filter (\<lambda>e. ident e = name) (es1 @ new))"
      if "name \<noteq> []" "name \<notin> seen" for name
    proof (cases "name = name0")
      case True
      have "filter (\<lambda>e. ident e = name0) new = []"
        using new(3) by (auto simp: filter_empty_conv)
      moreover have "filter (\<lambda>e. ident e = name0) es1 = es1"
        using shape by auto
      ultimately have f1: "filter (\<lambda>e. ident e = name) (es1 @ new) = es1"
        using True by simp
      have f2: "find (\<lambda>u. get_identifier u = Inr name) (u # us) = Some u"
        using True u gi by (simp del: get_identifier.simps)
      show ?thesis unfolding f1 f2 using u v1 True by simp
    next
      case neq: False
      have f1: "filter (\<lambda>e. ident e = name) (es1 @ new) = filter (\<lambda>e. ident e = name) new"
        using shape neq by auto
      have f2: "find (\<lambda>u. get_identifier u = Inr name) (u # us)
                      = find (\<lambda>u. get_identifier u = Inr name) us"
        using neq gi u by (auto simp del: get_identifier.simps)
      from neq that have "name \<notin> insert name0 seen" by simp
      from names [OF that(1) this] show ?thesis unfolding f1 f2 .
    qed
    from a b c d show ?thesis by blast
  qed
qed

lemma validate_uris_result:
  assumes "validate_uris content data = Inr (ok, errs)"
  shows "ok = (errs = [])"
    and "\<forall>e \<in> set errs. ident e \<noteq> []"
    and "name \<noteq> [] \<Longrightarrow>
           (case find (\<lambda>u. get_identifier u = Inr name) (extract_uris data) of
                None \<Rightarrow> filter (\<lambda>e. ident e = name) errs = []
              | Some u \<Rightarrow> \<exists>uri ok1. u = JStr uri \<and>
                    validate_naming_patterns content data [] uri name
                      = Inr (ok1, filter (\<lambda>e. ident e = name) errs))"
proof -
  from assms have "validate_loop content data (extract_uris data) {} True [] = Inr (ok, errs)"
    by (simp only: validate_uris_def)
  from validate_loop_result [OF this] obtain new where
    new: "errs = [] @ new" "ok = (True \<and> new = [])"
      "\<forall>e \<in> set new. ident e \<noteq> [] \<and> ident e \<notin> {}"
    and names: "\<And>name. name \<noteq> [] \<Longrightarrow> name \<notin> {} \<Longrightarrow>
             (case find (\<lambda>u. get_identifier u = Inr name) (extract_uris data) of
                None \<Rightarrow> filter (\<lambda>e. ident e = name) new = []
              | Some u \<Rightarrow> \<exists>uri ok1. u = JStr uri \<and>
                    validate_naming_patterns content data [] uri name
                      = Inr (ok1, filter (\<lambda>e. ident e = name) new))"
    by blast
  from new have eq: "new = errs" by simp
  show "ok = (errs = [])" using new(2) eq by simp
  show "\<forall>e \<in> set errs. ident e \<noteq> []" using new(3) eq by simp
  show "case find (\<lambda>u. get_identifier u = Inr name) (extract_uris data) of
                None \<Rightarrow> filter (\<lambda>e. ident e = name) errs = []
              | Some u \<Rightarrow> \<exists>uri ok1. u = JStr uri \<and>
                    validate_naming_patterns content data [] uri name
                      = Inr (ok1, filter (\<lambda>e. ident e = name) errs)"
    if "name \<noteq> []"
  proof -
    have "name \<notin> {}" by simp
    from names [OF that this] show ?thesis unfolding eq .
  qed
qed

lemma filter_ident_length:
  assumes "validate_uris content data = Inr (ok, errs)"
  shows "length (filter (\<lambda>e. ident e = name) errs) \<le> 1"
proof (cases "name = []")
  case True
  with validate_uris_result(2) [OF assms] have "filter (\<lambda>e. ident e = name) errs = []"
    by (auto simp: filter_empty_conv)
  then show ?thesis by simp
next
  case False
  note r = validate_uris_result(3) [OF assms False]
  show ?thesis
  proof (cases "find (\<lambda>u. get_identifier u = Inr name) (extract_uris data)")
    case None
    with r show ?thesis by simp
  next
    case (Some u)
    with r obtain uri ok1 where
      "validate_naming_patterns content data [] uri name
         = Inr (ok1, filter (\<lambda>e. ident e = name) errs)"
      by auto
    from vnp_shape [OF this] show ?thesis by auto
  qed
qed

lemma vnp_alphanum_fails:
  assumes "\<not> re_match ALPHANUM name"
  shows "validate_naming_patterns content data errors uri name =
           (case get_node data uri of
              Inl e \<Rightarrow> Inl e
            | Inr node \<Rightarrow> Inr (False, errors @
                  [\<lparr>message = pattern_message ALPHANUM, ident = name,
                    line = get_line_number content uri\<rparr>]))"
  using assms by (simp add: validate_naming_patterns_def split: sum.splits)

lemmas eval_defs = validate_uris_def validate_naming_patterns_def get_line_number_def
  map_ids_to_lines_def id_marker_def re_match_def match_body_def ascii_upper_def
  ascii_lower_def ascii_digit_def get_type_def enumerate_eq_zip

subsection \<open>The scenarios of the spec\<close>

text \<open>
  C2 as the spec states it fails: the identifier \<^verbatim>\<open>ex:Invalid_Name\<close> has no \<^verbatim>\<open>#\<close>, its
  LocalName is empty, it is skipped, and the document is valid with no violation.
\<close>

theorem invalid_name_without_fragment_is_valid:
  "validate_uris ''{\"@graph\":[{\"@id\":\"ex:Invalid_Name\"}]}''
     (JObj [(''@graph'', JArr [JObj [(''@id'', JStr ''ex:Invalid_Name'')]])])
   = Inr (True, [])"
  by (simp add: validate_uris_def)

text \<open>
  C2, amended: with the identifier written \<^verbatim>\<open>ex#Invalid_Name\<close> the document produces
  exactly one violation, with the ALPHANUM message, for LocalName \<^verbatim>\<open>Invalid_Name\<close>, and the
  result is invalid; written \<^verbatim>\<open>ex:Invalid_Name\<close> it produces none and the result is valid.
\<close>

theorem invalid_name_with_fragment_one_alphanum:
  "validate_uris ''{\"@graph\":[{\"@id\":\"ex#Invalid_Name\"}]}''
     (JObj [(''@graph'', JArr [JObj [(''@id'', JStr ''ex#Invalid_Name'')]])])
   = Inr (False, [\<lparr>message = ''Must be alphanumeric starting with a letter'',
                     ident = ''Invalid_Name'', line = 1\<rparr>])
   \<and> validate_uris ''{\"@graph\":[{\"@id\":\"ex:Invalid_Name\"}]}''
     (JObj [(''@graph'', JArr [JObj [(''@id'', JStr ''ex:Invalid_Name'')]])])
   = Inr (True, [])"
  by (simp add: eval_defs)

text \<open>
  C3 as the spec states it fails: \<^verbatim>\<open>ex:lowerConcept\<close> has no \<^verbatim>\<open>#\<close> either, so the concept
  node is never checked and the document is valid with no violation.
\<close>

theorem lower_concept_without_fragment_is_valid:
  "validate_uris ''{\"@graph\":[{\"@id\":\"ex:lowerConcept\",\"@type\":[\"skos:Concept\"]}]}''
     (JObj [(''@graph'', JArr [JObj [(''@id'', JStr ''ex:lowerConcept''),
                                     (''@type'', JArr [JStr ''skos:Concept''])]])])
   = Inr (True, [])"
  by (simp add: validate_uris_def)

text \<open>
  C3, amended: with the identifier written \<^verbatim>\<open>ex#lowerConcept\<close> the document produces
  exactly one violation, with the PASCAL message, for LocalName \<^verbatim>\<open>lowerConcept\<close>, and no
  ALPHANUM violation; written \<^verbatim>\<open>ex:lowerConcept\<close> it produces no violation at all.
\<close>

theorem lower_concept_with_fragment_one_pascal:
  "validate_uris ''{\"@graph\":[{\"@id\":\"ex#lowerConcept\",\"@type\":[\"skos:Concept\"]}]}''
     (JObj [(''@graph'', JArr [JObj [(''@id'', JStr ''ex#lowerConcept''),
                                     (''@type'', JArr [JStr ''skos:Concept''])]])])
   = Inr (False, [\<lparr>message = ''Concepts must use PascalCase'',
                     ident = ''lowerConcept'', line = 1\<rparr>])
   \<and> validate_uris ''{\"@graph\":[{\"@id\":\"ex:lowerConcept\",\"@type\":[\"skos:Concept\"]}]}''
     (JObj [(''@graph'', JArr [JObj [(''@id'', JStr ''ex:lowerConcept''),
                                     (''@type'', JArr [JStr ''skos:Concept''])]])])
   = Inr (True, [])"
  by (simp add: eval_defs)

subsection \<open>The ALPHANUM rule short-circuits the concept rule\<close>

text \<open>
  C4 as the spec states it fails on an identifier whose LocalName is empty: the LocalName
  of \<^verbatim>\<open>ex:bad-name\<close> is empty in the code (and is \<^verbatim>\<open>ex:bad-name\<close> in the spec's words), it
  fails the alphanumeric pattern either way, and no violation is recorded.
\<close>

theorem empty_local_name_records_nothing:
  "get_identifier (JStr ''ex:bad-name'') = Inr []
   \<and> \<not> re_match ALPHANUM []
   \<and> \<not> re_match ALPHANUM (spec_local_name ''ex:bad-name'')
   \<and> validate_uris ''{\"@graph\":[{\"@id\":\"ex:bad-name\",\"@type\":[\"skos:Concept\"]}]}''
       (JObj [(''@graph'', JArr [JObj [(''@id'', JStr ''ex:bad-name''),
                                       (''@type'', JArr [JStr ''skos:Concept''])]])])
     = Inr (True, [])"
  by (simp add: eval_defs spec_local_name_def after_last_def)

text \<open>
  C4, amended: when validation returns, for every identifier of the document whose
  LocalName is not empty and fails the alphanumeric pattern, the result is invalid, exactly
  one violation is recorded for that LocalName, it carries the ALPHANUM message, and no
  PASCAL violation is recorded for it, whatever the type of the node.
\<close>

theorem alphanum_failure_one_violation:
  assumes ret: "validate_uris content data = Inr (ok, errs)"
    and mem: "JStr uri \<in> set (extract_uris data)"
    and gi: "get_identifier (JStr uri) = Inr name"
    and ne: "name \<noteq> []"
    and bad: "\<not> re_match ALPHANUM name"
  shows "\<not> ok \<and>
         (\<exists>l. filter (\<lambda>e. ident e = name) errs
                 = [\<lparr>message = pattern_message ALPHANUM, ident = name, line = l\<rparr>]) \<and>
         \<not> (\<exists>e \<in> set errs. ident e = name \<and> message e = pattern_message PASCAL)"
proof -
  from mem gi have "find (\<lambda>u. get_identifier u = Inr name) (extract_uris data) \<noteq> None"
    by (auto simp: find_None_iff simp del: get_identifier.simps)
  then obtain u where f: "find (\<lambda>u. get_identifier u = Inr name) (extract_uris data) = Some u"
    by auto
  with validate_uris_result(3) [OF ret ne] obtain uri1 ok1 where
    v1: "validate_naming_patterns content data [] uri1 name
           = Inr (ok1, filter (\<lambda>e. ident e = name) errs)"
    by auto
  then have one: "filter (\<lambda>e. ident e = name) errs =
           [\<lparr>message = pattern_message ALPHANUM, ident = name,
             line = get_line_number content uri1\<rparr>]"
    by (simp add: vnp_alphanum_fails [OF bad] split: sum.splits)
  then have "errs \<noteq> []" by auto
  with validate_uris_result(1) [OF ret] have "\<not> ok" by simp
  moreover have "\<not> (\<exists>e \<in> set errs. ident e = name \<and> message e = pattern_message PASCAL)"
  proof
    assume "\<exists>e \<in> set errs. ident e = name \<and> message e = pattern_message PASCAL"
    then obtain e where "e \<in> set (filter (\<lambda>e. ident e = name) errs)"
      and "message e = pattern_message PASCAL" by auto
    with one show False by simp
  qed
  ultimately show ?thesis using one by blast
qed

text \<open>A concept node with an underscore in its LocalName: one ALPHANUM violation only.\<close>

theorem alphanum_failure_one_violation_witness:
  "validate_uris ''{\"@graph\":[{\"@id\":\"ex#bad_name\",\"@type\":[\"skos:Concept\"]}]}''
       (JObj [(''@graph'', JArr [JObj [(''@id'', JStr ''ex#bad_name''),
                                       (''@type'', JArr [JStr ''skos:Concept''])]])])
     = Inr (False, [\<lparr>message = pattern_message ALPHANUM, ident = ''bad_name'', line = 1\<rparr>])
   \<and> get_identifier (JStr ''ex#bad_name'') = Inr ''bad_name''
   \<and> \<not> re_match ALPHANUM ''bad_name''
   \<and> \<not> (\<exists>e \<in> set [\<lparr>message = pattern_message ALPHANUM, ident = ''bad_name'', line = 1\<rparr>].
           ident e = ''bad_name'' \<and> message e = pattern_message PASCAL)"
proof -
  let ?txt = "''{\"@graph\":[{\"@id\":\"ex#bad_name\",\"@type\":[\"skos:Concept\"]}]}''"
  let ?doc = "JObj [(''@graph'', JArr [JObj [(''@id'', JStr ''ex#bad_name''),
                                       (''@type'', JArr [JStr ''skos:Concept''])]])]"
  have h1: "validate_uris ?txt ?doc
     = Inr (False, [\<lparr>message = pattern_message ALPHANUM, ident = ''bad_name'', line = 1\<rparr>])"
    by (simp add: eval_defs)
  have h2: "JStr ''ex#bad_name'' \<in> set (extract_uris ?doc)" by simp
  have h3: "get_identifier (JStr ''ex#bad_name'') = Inr ''bad_name''" by simp
  have h4: "''bad_name'' \<noteq> []" by simp
  have h5: "\<not> re_match ALPHANUM ''bad_name''" by (simp add: eval_defs)
  from alphanum_failure_one_violation [OF h1 h2 h3 h4 h5] h1 h3 h5 show ?thesis by blast
qed

subsection \<open>Deduplication by LocalName\<close>

text \<open>
  C5: when validation returns, at most one violation in the list mentions a given
  LocalName, and the violations recorded for a LocalName are exactly those of evaluating
  the rules on the first identifier, in traversal order, that yields it: the later
  identifiers with the same LocalName, whatever their full text, contribute nothing.
\<close>

theorem local_name_reported_once_from_first_identifier:
  assumes "validate_uris content data = Inr (ok, errs)"
  shows "length (filter (\<lambda>e. ident e = name) errs) \<le> 1 \<and>
         (name \<noteq> [] \<longrightarrow>
           (case find (\<lambda>u. get_identifier u = Inr name) (extract_uris data) of
                None \<Rightarrow> filter (\<lambda>e. ident e = name) errs = []
              | Some u \<Rightarrow> \<exists>uri ok1. u = JStr uri \<and>
                    validate_naming_patterns content data [] uri name
                      = Inr (ok1, filter (\<lambda>e. ident e = name) errs))) \<and>
         (name = [] \<longrightarrow> filter (\<lambda>e. ident e = name) errs = [])"
  using filter_ident_length [OF assms] validate_uris_result(3) [OF assms]
    validate_uris_result(2) [OF assms]
  by (auto simp: filter_empty_conv)

text \<open>
  Two nodes share the LocalName \<^verbatim>\<open>thing\<close>: the first is no concept and passes, the second
  is a concept and would fail the PASCAL rule, but is never evaluated.
\<close>

theorem local_name_reported_once_from_first_identifier_witness:
  "validate_uris []
     (JObj [(''@graph'', JArr [JObj [(''@id'', JStr ''a#thing'')],
                               JObj [(''@id'', JStr ''b#thing''),
                                     (''@type'', JArr [JStr ''skos:Concept''])]])])
     = Inr (True, [])
   \<and> find (\<lambda>u. get_identifier u = Inr ''thing'')
        (extract_uris (JObj [(''@graph'', JArr [JObj [(''@id'', JStr ''a#thing'')],
                               JObj [(''@id'', JStr ''b#thing''),
                                     (''@type'', JArr [JStr ''skos:Concept''])]])]))
     = Some (JStr ''a#thing'')
   \<and> validate_naming_patterns []
        (JObj [(''@graph'', JArr [JObj [(''@id'', JStr ''a#thing'')],
                               JObj [(''@id'', JStr ''b#thing''),
                                     (''@type'', JArr [JStr ''skos:Concept''])]])])
        [] ''b#thing'' ''thing''
     = Inr (False, [\<lparr>message = pattern_message PASCAL, ident = ''thing'', line = 0\<rparr>])
   \<and> length (filter (\<lambda>e. ident e = ''thing'') []) \<le> 1"
proof -
  let ?doc = "JObj [(''@graph'', JArr [JObj [(''@id'', JStr ''a#thing'')],
                               JObj [(''@id'', JStr ''b#thing''),
                                     (''@type'', JArr [JStr ''skos:Concept''])]])]"
  have h1: "validate_uris [] ?doc = Inr (True, [])"
    by (simp add: eval_defs)
  have h2: "find (\<lambda>u. get_identifier u = Inr ''thing'') (extract_uris ?doc)
              = Some (JStr ''a#thing'')"
    by simp
  have h3: "validate_naming_patterns [] ?doc [] ''b#thing'' ''thing''
     = Inr (False, [\<lparr>message = pattern_message PASCAL, ident = ''thing'', line = 0\<rparr>])"
    by (simp add: eval_defs)
  from local_name_reported_once_from_first_identifier [OF h1, of "''thing''"] h1 h2 h3
  show ?thesis by simp
qed

subsection \<open>When validation returns\<close>










subsection \<open>Uncaught exceptions\<close>




subsection \<open>Line numbers\<close>

lemma first_filter_find:
  "(case filter R xs of [] \<Rightarrow> (0::nat) | p # rest \<Rightarrow> fst p)
     = (case find R xs of None \<Rightarrow> 0 | Some p \<Rightarrow> fst p)"
  by (induction xs) auto

lemma get_line_number_find:
  "get_line_number content uri =
     (case find (\<lambda>p. sublist id_marker (snd p) \<and> sublist uri (snd p))
             (enumerate 1 (split_on CHR 0x0A content)) of
        None \<Rightarrow> 0
      | Some p \<Rightarrow> fst p)"
proof -
  have "get_line_number content uri =
     (case filter (\<lambda>p. sublist id_marker (snd p) \<and> sublist uri (snd p))
             (enumerate 1 (split_on CHR 0x0A content)) of
        [] \<Rightarrow> 0
      | p # rest \<Rightarrow> fst p)"
    by (simp add: get_line_number_def map_ids_to_lines_def case_prod_beta
          str_contains_iff_sublist split: list.splits)
  then show ?thesis by (simp only: first_filter_find)
qed

text \<open>
  C7: \<^verbatim>\<open>get_line_number\<close> returns the smallest number of a line, counted from 1, that
  contains the marker \<^verbatim>\<open>"@id"\<close> and contains the identifier as a substring, and 0 when there
  is no such line.
\<close>

theorem get_line_number_least_matching_line:
  "get_line_number content uri =
     (if \<exists>n. matching_line content uri n
      then (LEAST n. matching_line content uri n)
      else 0)"
proof -
  let ?ls = "split_on CHR 0x0A content"
  let ?R = "\<lambda>p. sublist id_marker (snd p) \<and> sublist uri (snd p)"
  show ?thesis
  proof (cases "find ?R (enumerate 1 ?ls)")
    case None
    have "\<not> matching_line content uri n" for n
    proof
      assume m: "matching_line content uri n"
      then have "(n, ?ls ! (n - 1)) \<in> set (enumerate 1 ?ls)"
        by (auto simp: matching_line_def in_set_enumerate_eq)
      with None have "\<not> ?R (n, ?ls ! (n - 1))"
        unfolding find_None_iff by blast
      with m show False by (simp add: matching_line_def)
    qed
    with None show ?thesis by (simp add: get_line_number_find)
  next
    case (Some p)
    then obtain i where i: "i < length ?ls" "?R (enumerate 1 ?ls ! i)"
      "p = enumerate 1 ?ls ! i" "\<forall>j<i. \<not> ?R (enumerate 1 ?ls ! j)"
      unfolding find_Some_iff by auto
    from i(1,3) have p: "p = (Suc i, ?ls ! i)" by (simp add: nth_enumerate_eq)
    have here: "matching_line content uri (Suc i)"
      using i(1,2) p i(3) by (simp add: matching_line_def)
    have least: "Suc i \<le> m" if m: "matching_line content uri m" for m
    proof (rule ccontr)
      assume "\<not> Suc i \<le> m"
      with m have j: "m - 1 < i" "1 \<le> m" by (auto simp: matching_line_def)
      with i(1) have "enumerate 1 ?ls ! (m - 1) = (m, ?ls ! (m - 1))"
        by (simp add: nth_enumerate_eq)
      with i(4) j(1) have "\<not> ?R (m, ?ls ! (m - 1))" by metis
      with m show False by (simp add: matching_line_def)
    qed
    have "(LEAST n. matching_line content uri n) = Suc i"
      by (rule Least_equality) (use here least in auto)
    with here Some p show ?thesis by (auto simp: get_line_number_find)
  qed
qed

subsection \<open>Malformed JSON\<close>



subsection \<open>Concept detection\<close>

text \<open>
  C9: once the ALPHANUM rule has passed, a node whose \<^verbatim>\<open>@type\<close> is a single string is held
  to the PASCAL rule exactly when \<^verbatim>\<open>skos:Concept\<close> is a substring of that string, and a node
  whose \<^verbatim>\<open>@type\<close> is a sequence exactly when the string \<^verbatim>\<open>skos:Concept\<close> is one of its elements.
\<close>

theorem concept_rule_substring_or_member:
  assumes "get_node data uri = Inr node"
    and "re_match ALPHANUM name"
  shows "(get_type node = JStr t \<longrightarrow>
            validate_naming_patterns content data errors uri name =
              (if sublist ''skos:Concept'' t \<and> \<not> re_match PASCAL name
               then Inr (False, errors @
                      [\<lparr>message = pattern_message PASCAL, ident = name,
                        line = get_line_number content uri\<rparr>])
               else Inr (True, errors)))
       \<and> (get_type node = JArr ts \<longrightarrow>
            validate_naming_patterns content data errors uri name =
              (if JStr ''skos:Concept'' \<in> set ts \<and> \<not> re_match PASCAL name
               then Inr (False, errors @
                      [\<lparr>message = pattern_message PASCAL, ident = name,
                        line = get_line_number content uri\<rparr>])
               else Inr (True, errors)))"
  using assms by (simp add: validate_naming_patterns_def str_contains_iff_sublist)

text \<open>
  The string \<^verbatim>\<open>Xskos:ConceptY\<close> as \<^verbatim>\<open>@type\<close> makes the node a concept; the same string as
  the only element of a sequence does not.
\<close>

theorem concept_rule_substring_or_member_witness:
  "validate_naming_patterns []
     (JObj [(''@graph'', JArr [JObj [(''@id'', JStr ''ex#lowerThing''),
                                     (''@type'', JStr ''Xskos:ConceptY'')]])])
     [] ''ex#lowerThing'' ''lowerThing''
     = Inr (False, [\<lparr>message = pattern_message PASCAL, ident = ''lowerThing'', line = 0\<rparr>])
   \<and> validate_naming_patterns []
     (JObj [(''@graph'', JArr [JObj [(''@id'', JStr ''ex#lowerThing''),
                                     (''@type'', JArr [JStr ''Xskos:ConceptY''])]])])
     [] ''ex#lowerThing'' ''lowerThing''
     = Inr (True, [])"
proof -
  let ?n1 = "[(''@id'', JStr ''ex#lowerThing''), (''@type'', JStr ''Xskos:ConceptY'')]"
  let ?n2 = "[(''@id'', JStr ''ex#lowerThing''), (''@type'', JArr [JStr ''Xskos:ConceptY''])]"
  have g1: "get_node (JObj [(''@graph'', JArr [JObj ?n1])]) ''ex#lowerThing'' = Inr ?n1"
    by simp
  have g2: "get_node (JObj [(''@graph'', JArr [JObj ?n2])]) ''ex#lowerThing'' = Inr ?n2"
    by simp
  have a: "re_match ALPHANUM ''lowerThing''" by (simp add: eval_defs)
  have p: "\<not> re_match PASCAL ''lowerThing''" by (simp add: eval_defs)
  have t1: "get_type ?n1 = JStr ''Xskos:ConceptY''" by (simp add: get_type_def)
  have t2: "get_type ?n2 = JArr [JStr ''Xskos:ConceptY'']" by (simp add: get_type_def)
  have s: "sublist ''skos:Concept'' ''Xskos:ConceptY''"
    by (simp add: str_contains_iff_sublist [symmetric])
  have l: "get_line_number [] ''ex#lowerThing'' = 0" by (simp add: eval_defs)
  from concept_rule_substring_or_member [OF g1 a, of "''Xskos:ConceptY''" "[]" "[]" "[]"]
    concept_rule_substring_or_member [OF g2 a, of "[]" "[]" "[]" "[JStr ''Xskos:ConceptY'']"]
    t1 t2 s p l
  show ?thesis by simp
qed

end
